theory Spec2Isabelle
  imports Main "HOL-Library.Sublist"
begin

section \<open>Text and the string operations of Python that the script calls\<close>

text \<open>
  The script \<^verbatim>\<open>_misc/readme_update_helptext.py\<close> works on Python \<^verbatim>\<open>str\<close> values. A text
  is modelled as a \<^typ>\<open>string\<close>, one \<^typ>\<open>char\<close> per code point; the 256 values of
  \<^typ>\<open>char\<close> stand for the code points U+0000 to U+00FF. Every operation below except
  \<open>is_space\<close> treats characters as opaque values.
\<close>

abbreviation NL :: char where
  "NL \<equiv> CHR 0x0A"

text \<open>
  \<^verbatim>\<open>s.find(sub, start)\<close>: the lowest index at or after \<open>start\<close> where \<open>sub\<close> begins, or
  \<open>-1\<close>. A negative \<open>start\<close> counts from the end and is clamped to \<open>0\<close>; a \<open>start\<close> beyond
  the end finds nothing. \<open>find_scan sub s i\<close> scans \<open>s\<close>, whose first character has index \<open>i\<close>.
\<close>

fun find_scan :: "string \<Rightarrow> string \<Rightarrow> nat \<Rightarrow> int" where
  "find_scan sub [] i = (if sub = [] then int i else - 1)"
| "find_scan sub (c # cs) i =
     (if prefix sub (c # cs) then int i else find_scan sub cs (Suc i))"

definition py_find :: "string \<Rightarrow> string \<Rightarrow> int \<Rightarrow> int" where
  "py_find s sub start =
     (let n = int (length s);
          st = (if start < 0 then max 0 (start + n) else start)
      in if n < st then - 1 else find_scan sub (drop (nat st) s) (nat st))"

text \<open>
  The slices \<^verbatim>\<open>s[:i]\<close> and \<^verbatim>\<open>s[i:]\<close>: a negative bound counts from the end, and a bound
  outside the text is clamped.
\<close>

definition slice_bound :: "string \<Rightarrow> int \<Rightarrow> nat" where
  "slice_bound s i = nat (if i < 0 then max 0 (i + int (length s)) else i)"

definition slice_to :: "string \<Rightarrow> int \<Rightarrow> string" where
  "slice_to s i = take (slice_bound s i) s"

definition slice_from :: "string \<Rightarrow> int \<Rightarrow> string" where
  "slice_from s i = drop (slice_bound s i) s"

text \<open>
  \<^verbatim>\<open>s.replace(old, new)\<close>: the occurrences of \<open>old\<close> are found from left to right, each
  search resuming after the previous occurrence, and every one is replaced. With an empty
  \<open>old\<close>, \<open>new\<close> is inserted before every character and at the end.
\<close>

function str_replace :: "string \<Rightarrow> string \<Rightarrow> string \<Rightarrow> string" where
  "str_replace old new [] = (if old = [] then new else [])"
| "str_replace old new (c # cs) =
     (if old = [] then new @ c # str_replace old new cs
      else if prefix old (c # cs)
        then new @ str_replace old new (drop (length old) (c # cs))
      else c # str_replace old new cs)"
  by pat_completeness auto
termination
  by (relation "measure (\<lambda>(old, new, s). length s)") auto

declare str_replace.simps [simp del]

text \<open>
  \<^verbatim>\<open>s.rstrip()\<close> removes the trailing characters for which \<^verbatim>\<open>str.isspace\<close> holds: among
  the code points below 256 these are U+0009 to U+000D, U+001C to U+0020, U+0085 and U+00A0.
\<close>

definition is_space :: "char \<Rightarrow> bool" where
  "is_space c =
     (let n = (of_char c :: nat)
      in (9 \<le> n \<and> n \<le> 13) \<or> (28 \<le> n \<and> n \<le> 32) \<or> n = 133 \<or> n = 160)"

definition rstrip :: "string \<Rightarrow> string" where
  "rstrip s = rev (dropWhile is_space (rev s))"

text \<open>
  \<^verbatim>\<open>re.sub(r'[ \t]+(\n|\Z)', r'\1', s)\<close>. At each position the pattern needs a space or a
  tab; the greedy run of spaces and tabs from there must be followed by a line feed or by the
  end of the text (a shorter run is followed by a space or a tab, so backtracking finds
  nothing more). A match is replaced by its group 1, the line feed or nothing, and the search
  resumes after the match; where nothing matches the character is copied.
\<close>

definition is_hspace :: "char \<Rightarrow> bool" where
  "is_hspace c = (c = CHR '' '' \<or> c = CHR 0x09)"

function strip_trailing_space :: "string \<Rightarrow> string" where
  "strip_trailing_space [] = []"
| "strip_trailing_space (c # cs) =
     (if is_hspace c then
        (case dropWhile is_hspace cs of
           [] \<Rightarrow> []
         | d # ds \<Rightarrow> if d = NL then NL # strip_trailing_space ds
                     else c # strip_trailing_space cs)
      else c # strip_trailing_space cs)"
  by pat_completeness auto
termination
proof (relation "measure length")
  show "wf (measure (length :: string \<Rightarrow> nat))" by simp
next
  fix c :: char and cs ds :: string and d :: char
  assume "dropWhile is_hspace cs = d # ds"
  then have "length (d # ds) \<le> length cs"
    by (metis length_dropWhile_le)
  then show "(ds, c # cs) \<in> measure length" by simp
qed simp_all

declare strip_trailing_space.simps [simp del]

section \<open>The script\<close>

definition COMMAND_NAME :: string where
  "COMMAND_NAME = ''nitf-rename''"

definition patch_help_test :: "string \<Rightarrow> string" where
  "patch_help_test help_output =
     (let help_output =
            str_replace (''usage: '' @ COMMAND_NAME)
              (''usage::\<newline>'' @ ''\<newline>'' @ ''       '' @ COMMAND_NAME) help_output;
          help_output =
            str_replace ''{none,auto,git,hg,svn}'' ''<none,auto,git,hg,svn>'' help_output
      in help_output)"

text \<open>
  Lines 36 to 51 of \<open>main\<close>: from the decoded standard output of the command to the text that
  is spliced into the document.
\<close>

definition normalize_output :: "string \<Rightarrow> string" where
  "normalize_output out =
     (let help_output = rstrip out @ ''\<newline>\<newline>'';
          help_output = strip_trailing_space help_output
      in help_output)"

definition help_text :: "string \<Rightarrow> string" where
  "help_text out =
     (let help_output = normalize_output out;
          help_output = patch_help_test help_output;
          help_output =
            ''\<newline>Output of ``'' @ COMMAND_NAME @ '' --help``\<newline>\<newline>'' @ help_output
      in help_output)"

text \<open>
  Lines 56 to 70 of \<open>main\<close>: the new content of the document, or the message that is printed
  when a marker is not found. \<^verbatim>\<open>'{!r}'.format(s)\<close> writes \<open>s\<close> between single quotes when \<open>s\<close>
  has no quote, backslash or unprintable character, which holds for both markers.
\<close>

definition help_begin_text :: string where
  "help_begin_text = ''.. BEGIN HELP TEXT''"

definition help_end_text :: string where
  "help_end_text = ''.. END HELP TEXT''"

definition not_found_message :: "string \<Rightarrow> string" where
  "not_found_message marker = ''Error: '' @ [CHR 0x27] @ marker @ [CHR 0x27] @ '' not found''"

definition splice_doc :: "string \<Rightarrow> string \<Rightarrow> string + string" where
  "splice_doc data help_output =
     (let help_begin_index = py_find data help_begin_text 0;
          help_end_index = py_find data help_end_text help_begin_index
      in if help_begin_index = - 1 then Inl (not_found_message help_begin_text)
         else if help_end_index = - 1 then Inl (not_found_message help_end_text)
         else
           let help_begin_index = help_begin_index + int (length help_begin_text) + 1;
               data_update =
                 slice_to data help_begin_index @ help_output @ slice_from data help_end_index
           in Inr data_update)"

text \<open>
  The whole of \<open>main\<close>. What it reads from outside is an argument: the result of
  \<^verbatim>\<open>subprocess.run\<close>, which raises when the command cannot be started and otherwise returns
  the exit status and the captured output (\<open>None\<close> when the bytes are not UTF-8, so that
  decoding raises), and the world, made of the content of \<^verbatim>\<open>readme.rst\<close> (\<open>None\<close> when the
  file does not exist) and of the lines printed so far.
\<close>

datatype run_result = Not_Started | Completed (returncode: int) (decoded: "string option")

datatype exn = OSError | UnicodeDecodeError | FileNotFoundError

datatype outcome = Raised exn | Returned

record world =
  readme :: "string option"
  printed :: "string list"

definition main :: "run_result \<Rightarrow> world \<Rightarrow> outcome \<times> world" where
  "main p w =
     (case p of
        Not_Started \<Rightarrow> (Raised OSError, w)
      | Completed rc out \<Rightarrow>
          (case out of
             None \<Rightarrow> (Raised UnicodeDecodeError, w)
           | Some stdout \<Rightarrow>
               let help_output = help_text stdout
               in (case readme w of
                     None \<Rightarrow> (Raised FileNotFoundError, w)
                   | Some data \<Rightarrow>
                       (case splice_doc data help_output of
                          Inl message \<Rightarrow> (Returned, w\<lparr>printed := printed w @ [message]\<rparr>)
                        | Inr data_update \<Rightarrow> (Returned, w\<lparr>readme := Some data_update\<rparr>)))))"

section \<open>Vocabulary of the properties\<close>

text \<open>
  The lines of a text, as \<^verbatim>\<open>s.split('\n')\<close> gives them: a text with \<open>n\<close> line feeds has
  \<open>n + 1\<close> lines, the last one empty when the text ends with a line feed.
\<close>

fun lines_of :: "string \<Rightarrow> string list" where
  "lines_of [] = [[]]"
| "lines_of (c # cs) =
     (if c = NL then [] # lines_of cs
      else (case lines_of cs of [] \<Rightarrow> [[c]] | l # ls \<Rightarrow> (c # l) # ls))"

text \<open>A line without its trailing spaces and tabs.\<close>

definition rstrip_hspace :: "string \<Rightarrow> string" where
  "rstrip_hspace l = rev (dropWhile is_hspace (rev l))"

text \<open>
  The content of a text up to position \<open>k\<close> followed by the rest of the line that position
  \<open>k\<close> is on, its line feed included.
\<close>

definition through_line :: "string \<Rightarrow> nat \<Rightarrow> string" where
  "through_line s k =
     take k s @ takeWhile (\<lambda>c. c \<noteq> NL) (drop k s)
       @ take 1 (dropWhile (\<lambda>c. c \<noteq> NL) (drop k s))"

section \<open>Searching a text\<close>

lemma find_scan_none_iff: "find_scan sub s i = - 1 \<longleftrightarrow> \<not> sublist sub s"
  by (induction s arbitrary: i) (auto simp: sublist_Cons_right)

lemma no_early_prefix:
  assumes "\<not> sublist sub (pre @ butlast sub)" and "pre = c # pre'"
  shows "\<not> prefix sub (pre @ sub @ post)"
proof
  assume p: "prefix sub (pre @ sub @ post)"
  have ne: "sub \<noteq> []" using assms(1) by auto
  have "length sub \<le> length (pre @ butlast sub)" using assms(2) ne by simp
  moreover have "pre @ sub @ post = (pre @ butlast sub) @ (last sub # post)"
    using ne by simp
  ultimately have "prefix sub (pre @ butlast sub)"
    using p by (metis prefix_length_prefix prefixI)
  then show False using assms(1) by auto
qed

text \<open>
  When no occurrence of \<open>sub\<close> begins inside \<open>pre\<close>, the occurrence that follows \<open>pre\<close> is
  the one the search returns.
\<close>

lemma find_scan_first:
  "\<not> sublist sub (pre @ butlast sub) \<Longrightarrow>
   find_scan sub (pre @ sub @ post) i = int (i + length pre)"
proof (induction pre arbitrary: i)
  case Nil
  then have "sub \<noteq> []" by auto
  then obtain c cs where "sub = c # cs" by (cases sub) auto
  then show ?case by simp
next
  case (Cons c pre)
  have np: "\<not> prefix sub ((c # pre) @ sub @ post)"
    using no_early_prefix [OF Cons.prems] by simp
  have "\<not> sublist sub (pre @ butlast sub)"
    using Cons.prems by (auto simp: sublist_Cons_right)
  from Cons.IH [OF this, of "Suc i"] np show ?case by simp
qed

text \<open>Every text that contains \<open>sub\<close> splits at its first occurrence in this way.\<close>

lemma first_occurrence_exists:
  "sub \<noteq> [] \<Longrightarrow> sublist sub s \<Longrightarrow>
   \<exists>pre post. s = pre @ sub @ post \<and> \<not> sublist sub (pre @ butlast sub)"
proof (induction s)
  case Nil
  then show ?case by simp
next
  case (Cons c cs)
  show ?case
  proof (cases "prefix sub (c # cs)")
    case True
    then obtain post where "c # cs = [] @ sub @ post" by (auto simp: prefix_def)
    moreover have "\<not> sublist sub ([] @ butlast sub)"
      using Cons.prems(1) sublist_length_le [of sub "butlast sub"] by (cases sub) auto
    ultimately show ?thesis by blast
  next
    case False
    then have "sublist sub cs" using Cons.prems(2) by (simp add: sublist_Cons_right)
    from Cons.IH [OF Cons.prems(1) this] obtain pre post
      where d: "cs = pre @ sub @ post" and n: "\<not> sublist sub (pre @ butlast sub)" by blast
    have "\<not> prefix sub (c # pre @ butlast sub)"
    proof
      assume "prefix sub (c # pre @ butlast sub)"
      moreover have "prefix (c # pre @ butlast sub) (c # cs)"
        using d Cons.prems(1)
        by (metis Cons_prefix_Cons append_butlast_last_id append.assoc prefixI
            same_prefix_prefix)
      ultimately show False using False by (metis prefix_order.trans)
    qed
    then have "\<not> sublist sub ((c # pre) @ butlast sub)"
      using n by (simp add: sublist_Cons_right)
    moreover have "c # cs = (c # pre) @ sub @ post" using d by simp
    ultimately show ?thesis by blast
  qed
qed

lemma py_find_nat:
  "k \<le> length s \<Longrightarrow> py_find s sub (int k) = find_scan sub (drop k s) k"
  by (simp add: py_find_def)

lemma py_find_0: "py_find s sub 0 = find_scan sub s 0"
  by (simp add: py_find_def)

lemma slice_to_nat: "slice_to s (int k) = take k s"
  by (simp add: slice_to_def slice_bound_def)

lemma slice_from_nat: "slice_from s (int k) = drop k s"
  by (simp add: slice_from_def slice_bound_def)

lemma drop_length_append: "drop (length xs) (xs @ ys) = ys"
  by simp

section \<open>The splice\<close>

lemma length_help_begin_text: "length help_begin_text = 18"
  by (simp add: help_begin_text_def)

lemma length_help_end_text: "length help_end_text = 16"
  by (simp add: help_end_text_def)

lemma help_end_text_nonempty: "help_end_text \<noteq> []"
  by (simp add: help_end_text_def)

text \<open>
  The document is \<open>pre\<close>, the begin marker, \<open>mid\<close>, the end marker, \<open>post\<close>; no begin marker
  starts inside \<open>pre\<close> and no end marker starts between the begin marker and the end marker
  after \<open>mid\<close>. Then both searches succeed, and the new content keeps 19 characters from the
  start of the begin marker on: the marker and one more character.
\<close>

lemma splice_found:
  assumes b: "\<not> sublist help_begin_text (pre @ butlast help_begin_text)"
    and e: "\<not> sublist help_end_text (help_begin_text @ mid @ butlast help_end_text)"
  shows "splice_doc (pre @ help_begin_text @ mid @ help_end_text @ post) X
         = Inr (take (length pre + 19) (pre @ help_begin_text @ mid @ help_end_text @ post)
                @ X @ help_end_text @ post)"
proof -
  let ?data = "pre @ help_begin_text @ mid @ help_end_text @ post"
  let ?e = "length pre + 18 + length mid"
  have fb: "py_find ?data help_begin_text 0 = int (length pre)"
    using find_scan_first [OF b, of "mid @ help_end_text @ post" 0] by (simp add: py_find_0)
  have "py_find ?data help_end_text (int (length pre))
        = find_scan help_end_text (help_begin_text @ mid @ help_end_text @ post) (length pre)"
    by (simp add: py_find_nat)
  also have "\<dots> = int (length pre + length (help_begin_text @ mid))"
    using find_scan_first [of help_end_text "help_begin_text @ mid" post "length pre"] e
    by simp
  finally have fe: "py_find ?data help_end_text (int (length pre)) = int ?e"
    by (simp add: length_help_begin_text)
  have "drop (length (pre @ help_begin_text @ mid))
          ((pre @ help_begin_text @ mid) @ help_end_text @ post) = help_end_text @ post"
    by (rule drop_length_append)
  then have d: "drop ?e ?data = help_end_text @ post"
    by (simp add: length_help_begin_text)
  have sb: "slice_to ?data (int (length pre) + int (length help_begin_text) + 1)
            = take (length pre + 19) ?data"
  proof -
    have "int (length pre) + int (length help_begin_text) + 1 = int (length pre + 19)"
      by (simp add: length_help_begin_text)
    then show ?thesis by (simp only: slice_to_nat)
  qed
  have se: "slice_from ?data (int ?e) = help_end_text @ post"
    using d by (simp only: slice_from_nat)
  show ?thesis
    unfolding splice_doc_def Let_def fb fe sb se by simp
qed

lemma splice_no_begin:
  "\<not> sublist help_begin_text data \<Longrightarrow>
   splice_doc data X = Inl (not_found_message help_begin_text)"
  by (simp add: splice_doc_def py_find_0 find_scan_none_iff [THEN iffD2])

lemma splice_no_end:
  assumes b: "\<not> sublist help_begin_text (pre @ butlast help_begin_text)"
    and e: "\<not> sublist help_end_text (help_begin_text @ post)"
  shows "splice_doc (pre @ help_begin_text @ post) X = Inl (not_found_message help_end_text)"
proof -
  let ?data = "pre @ help_begin_text @ post"
  have fb: "py_find ?data help_begin_text 0 = int (length pre)"
    using find_scan_first [OF b, of post 0] by (simp add: py_find_0)
  have "py_find ?data help_end_text (int (length pre))
        = find_scan help_end_text (help_begin_text @ post) (length pre)"
    by (simp add: py_find_nat)
  then have fe: "py_find ?data help_end_text (int (length pre)) = - 1"
    using e by (simp add: find_scan_none_iff)
  show ?thesis
    unfolding splice_doc_def Let_def fb fe by simp
qed

text \<open>
  Neither marker overlaps itself, and no end marker begins inside a begin marker. So an
  occurrence of a marker that begins in a text lies in that text, and the hypotheses of the
  lemmas above say that \<open>pre\<close> has no begin marker and \<open>mid\<close> no end marker.
\<close>

lemma begin_unbordered:
  "\<forall>v\<in>set (prefixes (butlast help_begin_text)). v \<noteq> [] \<longrightarrow> \<not> suffix v help_begin_text"
  by code_simp

lemma end_unbordered:
  "\<forall>v\<in>set (prefixes (butlast help_end_text)). v \<noteq> [] \<longrightarrow> \<not> suffix v help_end_text"
  by code_simp

lemma end_not_across_begin:
  "\<forall>u\<in>set (prefixes help_end_text). u \<noteq> [] \<longrightarrow> \<not> suffix u help_begin_text"
  by code_simp

lemma end_not_in_begin: "\<not> sublist help_end_text help_begin_text"
  by code_simp

lemma no_occurrence_into_next:
  assumes ub: "\<forall>v\<in>set (prefixes (butlast w)). v \<noteq> [] \<longrightarrow> \<not> suffix v w"
    and m: "\<not> sublist w m"
  shows "\<not> sublist w (m @ butlast w)"
proof
  assume "sublist w (m @ butlast w)"
  then consider "sublist w m" | "sublist w (butlast w)"
    | xs1 xs2 where "w = xs1 @ xs2" "suffix xs1 m" "prefix xs2 (butlast w)"
    unfolding sublist_append by blast
  then show False
  proof cases
    case 1
    then show False using m by simp
  next
    case 2
    have "w \<noteq> []" using m by auto
    then have "length (butlast w) < length w" by simp
    then show False using sublist_length_le [OF 2] by simp
  next
    case 3
    show False
    proof (cases "xs2 = []")
      case True
      then have "suffix w m" using 3 by simp
      then show False using m by auto
    next
      case False
      moreover have "xs2 \<in> set (prefixes (butlast w))" using 3(3) by simp
      moreover have "suffix xs2 w" using 3(1) by (simp add: suffix_def)
      ultimately show False using ub by blast
    qed
  qed
qed

lemma no_occurrence_from_previous:
  assumes ov: "\<forall>u\<in>set (prefixes w). u \<noteq> [] \<longrightarrow> \<not> suffix u b"
    and nb: "\<not> sublist w b" and m: "\<not> sublist w m"
  shows "\<not> sublist w (b @ m)"
proof
  assume "sublist w (b @ m)"
  then consider "sublist w b" | "sublist w m"
    | xs1 xs2 where "w = xs1 @ xs2" "suffix xs1 b" "prefix xs2 m"
    unfolding sublist_append by blast
  then show False
  proof cases
    case 1
    then show False using nb by simp
  next
    case 2
    then show False using m by simp
  next
    case 3
    show False
    proof (cases "xs1 = []")
      case True
      then have "prefix w m" using 3 by simp
      then show False using m by auto
    next
      case False
      moreover have "xs1 \<in> set (prefixes w)" using 3(1) by simp
      ultimately show False using ov 3(2) by blast
    qed
  qed
qed

lemma begin_first: "\<not> sublist help_begin_text pre \<Longrightarrow>
   \<not> sublist help_begin_text (pre @ butlast help_begin_text)"
  by (rule no_occurrence_into_next [OF begin_unbordered])

lemma end_after_begin: "\<not> sublist help_end_text m \<Longrightarrow>
   \<not> sublist help_end_text (help_begin_text @ m)"
  by (rule no_occurrence_from_previous [OF end_not_across_begin end_not_in_begin])

lemma end_first: "\<not> sublist help_end_text m \<Longrightarrow>
   \<not> sublist help_end_text (help_begin_text @ m @ butlast help_end_text)"
  by (rule end_after_begin) (rule no_occurrence_into_next [OF end_unbordered])

lemma through_line_Suc:
  assumes "Suc k < length s"
  shows "take (Suc k) s = through_line s k \<longleftrightarrow> s ! k = NL"
proof -
  obtain x r where r: "drop (Suc k) s = x # r"
    using assms by (cases "drop (Suc k) s") auto
  have d: "drop k s = s ! k # x # r"
    using assms r by (metis Cons_nth_drop_Suc Suc_lessD)
  have t: "take (Suc k) s = take k s @ [s ! k]"
    using assms by (simp add: take_Suc_conv_app_nth)
  show ?thesis
  proof (cases "s ! k = NL")
    case True
    then show ?thesis by (simp add: through_line_def d t)
  next
    case False
    then show ?thesis by (simp add: through_line_def d t)
  qed
qed

section \<open>Lines\<close>

lemma lines_of_nonempty: "lines_of s \<noteq> []"
  by (induction s) (auto split: list.splits)

lemma lines_of_Cons:
  "c \<noteq> NL \<Longrightarrow> lines_of (c # cs) = (c # hd (lines_of cs)) # tl (lines_of cs)"
  using lines_of_nonempty [of cs] by (cases "lines_of cs") auto

lemma lines_of_append_NL:
  "NL \<notin> set l \<Longrightarrow> lines_of (l @ NL # r) = l # lines_of r"
  by (induction l) (auto simp: lines_of_nonempty split: list.splits)

section \<open>Replacing\<close>

lemma str_replace_Nil: "old \<noteq> [] \<Longrightarrow> str_replace old new [] = []"
  by (simp add: str_replace.simps)

lemma str_replace_match:
  "old \<noteq> [] \<Longrightarrow> prefix old (c # cs) \<Longrightarrow>
   str_replace old new (c # cs) = new @ str_replace old new (drop (length old) (c # cs))"
  by (simp add: str_replace.simps)

lemma str_replace_copy:
  "old \<noteq> [] \<Longrightarrow> \<not> prefix old (c # cs) \<Longrightarrow>
   str_replace old new (c # cs) = c # str_replace old new cs"
  by (simp add: str_replace.simps)

lemma str_replace_at_occurrence:
  assumes "old \<noteq> []"
  shows "str_replace old new (old @ r) = new @ str_replace old new r"
proof -
  obtain c cs where "old = c # cs" using assms by (cases old) auto
  then have "old @ r = c # (cs @ r)" by simp
  moreover have "prefix old (c # (cs @ r))" using \<open>old = c # cs\<close> by simp
  ultimately show ?thesis
    using str_replace_match [OF assms, of c "cs @ r" new] by simp
qed

lemma str_replace_occurrence:
  "old \<noteq> [] \<Longrightarrow> hd old \<notin> set (tl old) \<Longrightarrow>
   str_replace old new (p @ old @ r)
     = str_replace old new p @ new @ str_replace old new r"
proof (induction old new p rule: str_replace.induct)
  case (1 old new)
  then show ?case
    by (simp add: str_replace_at_occurrence str_replace_Nil)
next
  case (2 old new c cs)
  note ne = "2.prems"(1) and ub = "2.prems"(2)
  show ?case
  proof (cases "prefix old (c # cs)")
    case True
    then have p: "prefix old (c # (cs @ old @ r))"
      by (metis append_Cons prefix_prefix)
    have le: "length old \<le> length (c # cs)" using True by (rule prefix_length_le)
    then have dr: "drop (length old) (c # (cs @ old @ r))
                   = drop (length old) (c # cs) @ old @ r"
      by (metis append_Cons drop_append diff_is_0_eq drop0)
    show ?thesis
      using "2.IH"(2) [OF ne True ne ub] ne True p dr
      by (simp add: str_replace_match del: drop_Suc_Cons)
  next
    case False
    have np: "\<not> prefix old (c # (cs @ old @ r))"
    proof
      assume "prefix old (c # (cs @ old @ r))"
      then have "prefix old ((c # cs) @ old @ r)" by simp
      then obtain us where u: "old = (c # cs) @ us" and pu: "prefix us (old @ r)"
        using False unfolding prefix_append by blast
      have "us \<noteq> []" using u False by auto
      then have "hd us = hd old"
        using pu ne by (cases us; cases old) auto
      moreover have "hd us \<in> set (tl old)"
        using u \<open>us \<noteq> []\<close> by (cases us) auto
      ultimately show False using ub by simp
    qed
    show ?thesis
      using "2.IH"(3) [OF ne False ne ub] ne False np by (simp add: str_replace_copy)
  qed
qed

lemma hd_in_set_sublist:
  "t \<noteq> [] \<Longrightarrow> sublist t u \<Longrightarrow> hd t \<in> set u"
  using set_mono_sublist [of t u] by (cases t) auto

lemma sublist_append_cases:
  assumes "sublist t (a @ b)" and "t \<noteq> []" and "hd t \<notin> set a"
  shows "sublist t b"
proof -
  from assms(1) consider "sublist t a" | "sublist t b"
    | xs1 xs2 where "t = xs1 @ xs2" "suffix xs1 a" "prefix xs2 b"
    unfolding sublist_append by blast
  then show ?thesis
  proof cases
    case 1
    then show ?thesis using hd_in_set_sublist [OF assms(2)] assms(3) by blast
  next
    case 2
    then show ?thesis .
  next
    case 3
    show ?thesis
    proof (cases xs1)
      case Nil
      then show ?thesis using 3 by auto
    next
      case (Cons x xs)
      then have "hd t \<in> set a"
        using 3(1,2) by (auto simp: suffix_def)
      then show ?thesis using assms(3) by simp
    qed
  qed
qed

text \<open>A suffix of \<open>t\<close> that begins the replaced text begins the original text.\<close>

lemma prefix_before_replace:
  "old \<noteq> [] \<Longrightarrow> last t \<notin> set new \<Longrightarrow> \<not> sublist new t \<Longrightarrow>
   suffix w t \<Longrightarrow> prefix w (str_replace old new s) \<Longrightarrow> prefix w s"
proof (induction old new s arbitrary: w rule: str_replace.induct)
  case (1 old new)
  then show ?case by (simp add: str_replace_Nil)
next
  case (2 old new c cs)
  note ne = "2.prems"(1)
  show ?case
  proof (cases "w = []")
    case True
    then show ?thesis by simp
  next
    case wne: False
    show ?thesis
    proof (cases "prefix old (c # cs)")
      case True
      then have "prefix w (new @ str_replace old new (drop (length old) (c # cs)))"
        using "2.prems"(5) ne by (simp add: str_replace_match del: drop_Suc_Cons)
      then consider "prefix w new" | us where "w = new @ us"
        unfolding prefix_append by blast
      then show ?thesis
      proof cases
        case 1
        have "last w = last t" using "2.prems"(4) wne by (auto simp: suffix_def)
        moreover have "last w \<in> set new"
          using 1 wne by (metis last_in_set set_mono_prefix subsetD)
        ultimately show ?thesis using "2.prems"(2) by simp
      next
        case 2
        then have "sublist new w" by simp
        moreover have "sublist w t" using "2.prems"(4) by simp
        ultimately have "sublist new t" by (rule sublist_order.order.trans)
        then show ?thesis using "2.prems"(3) by simp
      qed
    next
      case False
      then have p: "prefix w (c # str_replace old new cs)"
        using "2.prems"(5) ne by (simp add: str_replace_copy)
      then obtain w' where w: "w = c # w'" and p': "prefix w' (str_replace old new cs)"
        using wne by (cases w) auto
      have "suffix w' t" using "2.prems"(4) w by (metis suffix_ConsD)
      from "2.IH"(3) [OF ne False ne "2.prems"(2,3) this p'] w show ?thesis by simp
    qed
  qed
qed

text \<open>After the replacement no occurrence of \<open>old\<close> is left, when \<open>new\<close> cannot form one.\<close>

lemma str_replace_no_residual:
  "old \<noteq> [] \<Longrightarrow> hd old \<notin> set new \<Longrightarrow> last old \<notin> set new \<Longrightarrow> \<not> sublist new old \<Longrightarrow>
   \<not> sublist old (str_replace old new s)"
proof (induction old new s rule: str_replace.induct)
  case (1 old new)
  then show ?case by (simp add: str_replace_Nil)
next
  case (2 old new c cs)
  note ne = "2.prems"(1)
  show ?case
  proof (cases "prefix old (c # cs)")
    case True
    have "\<not> sublist old (str_replace old new (drop (length old) (c # cs)))"
      by (rule "2.IH"(2) [OF ne True "2.prems"])
    then have "\<not> sublist old (new @ str_replace old new (drop (length old) (c # cs)))"
      using sublist_append_cases [OF _ ne "2.prems"(2)] by blast
    then show ?thesis using True ne by (simp add: str_replace_match del: drop_Suc_Cons)
  next
    case False
    have ih: "\<not> sublist old (str_replace old new cs)"
      by (rule "2.IH"(3) [OF ne False "2.prems"])
    have "\<not> prefix old (str_replace old new (c # cs))"
      using prefix_before_replace [OF ne "2.prems"(3,4) suffix_order.refl] False
      by blast
    then show ?thesis
      using ih False ne by (simp add: str_replace_copy sublist_Cons_right)
  qed
qed

lemma str_replace_puts_new:
  "old \<noteq> [] \<Longrightarrow> sublist old s \<Longrightarrow> sublist new (str_replace old new s)"
proof (induction old new s rule: str_replace.induct)
  case (1 old new)
  then show ?case by simp
next
  case (2 old new c cs)
  note ne = "2.prems"(1)
  show ?case
  proof (cases "prefix old (c # cs)")
    case True
    then show ?thesis using ne by (simp add: str_replace_match del: drop_Suc_Cons)
  next
    case False
    then have "sublist old cs" using "2.prems"(2) by (simp add: sublist_Cons_right)
    from "2.IH"(3) [OF ne False ne this] False ne show ?thesis
      by (simp add: str_replace_copy sublist_Cons_right)
  qed
qed

lemma str_replace_absent:
  "old \<noteq> [] \<Longrightarrow> \<not> sublist old s \<Longrightarrow> str_replace old new s = s"
proof (induction old new s rule: str_replace.induct)
  case (1 old new)
  then show ?case by (simp add: str_replace_Nil)
next
  case (2 old new c cs)
  note ne = "2.prems"(1)
  have np: "\<not> prefix old (c # cs)" using "2.prems"(2) by auto
  have "\<not> sublist old cs" using "2.prems"(2) by (simp add: sublist_Cons_right)
  from "2.IH"(3) [OF ne np ne this] np ne show ?case by (simp add: str_replace_copy)
qed

lemma sublist_append_right: "sublist t b \<Longrightarrow> sublist t (a @ b)"
  by (simp add: sublist_append)

text \<open>
  A text \<open>t\<close> whose first and last characters do not occur in \<open>old\<close>, and which does not
  contain \<open>old\<close>, is copied unchanged wherever it stands.
\<close>

lemma str_replace_skips:
  "old \<noteq> [] \<Longrightarrow> last t \<notin> set old \<Longrightarrow> \<not> sublist old t \<Longrightarrow> suffix w t \<Longrightarrow>
   str_replace old new (w @ r) = w @ str_replace old new r"
proof (induction w)
  case Nil
  then show ?case by simp
next
  case (Cons c w)
  have sw: "suffix w t" using Cons.prems(4) by (metis suffix_ConsD)
  have np: "\<not> prefix old (c # (w @ r))"
  proof
    assume "prefix old (c # (w @ r))"
    then have "prefix old ((c # w) @ r)" by simp
    then consider "prefix old (c # w)" | us where "old = (c # w) @ us"
      unfolding prefix_append by blast
    then show False
    proof cases
      case 1
      then have "sublist old (c # w)" by simp
      moreover have "sublist (c # w) t" using Cons.prems(4) by simp
      ultimately have "sublist old t" by (rule sublist_order.order.trans)
      then show False using Cons.prems(3) by simp
    next
      case 2
      have "last (c # w) = last t" using Cons.prems(4) by (auto simp: suffix_def)
      moreover have "last (c # w) \<in> set old"
        unfolding 2 using last_in_set [of "c # w"] by simp
      ultimately show False using Cons.prems(2) by simp
    qed
  qed
  from Cons.IH [OF Cons.prems(1,2,3) sw] np Cons.prems(1) show ?case
    by (simp add: str_replace_copy)
qed

lemma str_replace_keeps_sublist:
  "old \<noteq> [] \<Longrightarrow> t \<noteq> [] \<Longrightarrow> hd t \<notin> set old \<Longrightarrow> last t \<notin> set old \<Longrightarrow>
   \<not> sublist old t \<Longrightarrow> sublist t s \<Longrightarrow> sublist t (str_replace old new s)"
proof (induction old new s rule: str_replace.induct)
  case (1 old new)
  then show ?case by simp
next
  case (2 old new c cs)
  note ne = "2.prems"(1)
  show ?case
  proof (cases "prefix old (c # cs)")
    case True
    then obtain s' where s': "c # cs = old @ s'" by (auto simp: prefix_def)
    then have d: "drop (length old) (c # cs) = s'"
      by (metis append_eq_conv_conj)
    have "sublist t (old @ s')" using "2.prems"(6) s' by simp
    then have "sublist t s'"
      by (rule sublist_append_cases [OF _ "2.prems"(2,3)])
    then have "sublist t (drop (length old) (c # cs))" using d by simp
    from "2.IH"(2) [OF ne True "2.prems"(1-5) this] True ne show ?thesis
      by (simp add: str_replace_match sublist_append_right del: drop_Suc_Cons)
  next
    case False
    from "2.prems"(6) consider "prefix t (c # cs)" | "sublist t cs"
      by (auto simp: sublist_Cons_right)
    then show ?thesis
    proof cases
      case 1
      then obtain r where "c # cs = t @ r" by (auto simp: prefix_def)
      then show ?thesis
        using str_replace_skips [OF ne "2.prems"(4,5) suffix_order.refl, of new r] by simp
    next
      case 2
      from "2.IH"(3) [OF ne False "2.prems"(1-5) 2] False ne show ?thesis
        by (simp add: str_replace_copy sublist_Cons_right)
    qed
  qed
qed

lemma str_replace_makes_no_sublist:
  "old \<noteq> [] \<Longrightarrow> t \<noteq> [] \<Longrightarrow> hd t \<notin> set new \<Longrightarrow> last t \<notin> set new \<Longrightarrow>
   \<not> sublist new t \<Longrightarrow> sublist t (str_replace old new s) \<Longrightarrow> sublist t s"
proof (induction old new s rule: str_replace.induct)
  case (1 old new)
  then show ?case by (simp add: str_replace_Nil)
next
  case (2 old new c cs)
  note ne = "2.prems"(1)
  show ?case
  proof (cases "prefix old (c # cs)")
    case True
    then have "sublist t (new @ str_replace old new (drop (length old) (c # cs)))"
      using "2.prems"(6) ne by (simp add: str_replace_match del: drop_Suc_Cons)
    then have "sublist t (str_replace old new (drop (length old) (c # cs)))"
      by (rule sublist_append_cases [OF _ "2.prems"(2,3)])
    from "2.IH"(2) [OF ne True "2.prems"(1-5) this]
    have "sublist t (drop (length old) (c # cs))" .
    moreover have "sublist (drop (length old) (c # cs)) (c # cs)" by (rule sublist_drop)
    ultimately show ?thesis by (rule sublist_order.order.trans)
  next
    case False
    then have "sublist t (c # str_replace old new cs)"
      using "2.prems"(6) ne by (simp add: str_replace_copy)
    then consider "prefix t (str_replace old new (c # cs))"
      | "sublist t (str_replace old new cs)"
      using False ne by (auto simp: sublist_Cons_right str_replace_copy)
    then show ?thesis
    proof cases
      case 1
      then have "prefix t (c # cs)"
        by (rule prefix_before_replace [OF ne "2.prems"(4,5) suffix_order.refl])
      then show ?thesis by simp
    next
      case 2
      from "2.IH"(3) [OF ne False "2.prems"(1-5) 2] show ?thesis
        by (simp add: sublist_Cons_right)
    qed
  qed
qed

text \<open>
  A text \<open>h\<close> that \<open>old\<close> can neither begin in, end in nor contain is copied unchanged, and the
  replacements on its two sides do not depend on each other.
\<close>

lemma str_replace_skips_foreign:
  "old \<noteq> [] \<Longrightarrow> hd old \<notin> set w \<Longrightarrow>
   str_replace old new (w @ r) = w @ str_replace old new r"
proof (induction w)
  case Nil
  then show ?case by simp
next
  case (Cons c w)
  have "\<not> prefix old (c # (w @ r))"
    using Cons.prems by (cases old) auto
  moreover have "hd old \<notin> set w" using Cons.prems(2) by simp
  ultimately show ?case
    using Cons.IH Cons.prems(1) by (simp add: str_replace_copy)
qed

lemma str_replace_around:
  "old \<noteq> [] \<Longrightarrow> hd old \<notin> set h \<Longrightarrow> last old \<notin> set h \<Longrightarrow> \<not> sublist h old \<Longrightarrow>
   str_replace old new (a @ h @ b)
     = str_replace old new a @ h @ str_replace old new b"
proof (induction old new a rule: str_replace.induct)
  case (1 old new)
  then show ?case
    by (simp add: str_replace_skips_foreign str_replace_Nil)
next
  case (2 old new c cs)
  note ne = "2.prems"(1)
  show ?case
  proof (cases "prefix old (c # cs)")
    case True
    then have p: "prefix old (c # (cs @ h @ b))"
      by (metis append_Cons prefix_prefix)
    have le: "length old \<le> length (c # cs)" using True by (rule prefix_length_le)
    then have dr: "drop (length old) (c # (cs @ h @ b))
                   = drop (length old) (c # cs) @ h @ b"
      by (metis append_Cons drop_append diff_is_0_eq drop0)
    show ?thesis
      using "2.IH"(2) [OF ne True "2.prems"] ne True p dr
      by (simp add: str_replace_match del: drop_Suc_Cons)
  next
    case False
    have np: "\<not> prefix old (c # (cs @ h @ b))"
    proof
      assume "prefix old (c # (cs @ h @ b))"
      then have "prefix old ((c # cs) @ h @ b)" by simp
      then obtain us where u: "old = (c # cs) @ us" and pu: "prefix us (h @ b)"
        using False unfolding prefix_append by blast
      have un: "us \<noteq> []" using u False by auto
      from pu consider "prefix us h" | vs where "us = h @ vs"
        unfolding prefix_append by blast
      then show False
      proof cases
        case 1
        have "last old = last us" using u un by simp
        moreover have "last us \<in> set h"
          using 1 un by (metis last_in_set set_mono_prefix subsetD)
        ultimately show False using "2.prems"(3) by simp
      next
        case 2
        then have "sublist h old" unfolding u by (metis sublist_appendI)
        then show False using "2.prems"(4) by simp
      qed
    qed
    show ?thesis
      using "2.IH"(3) [OF ne False "2.prems"] ne False np by (simp add: str_replace_copy)
  qed
qed

section \<open>Stripping trailing spaces\<close>

lemma is_hspace_not_NL: "is_hspace c \<Longrightarrow> c \<noteq> NL"
  by (auto simp: is_hspace_def)

lemma is_hspace_is_space: "is_hspace c \<Longrightarrow> is_space c"
  by (auto simp: is_hspace_def is_space_def)

lemma NL_is_space: "is_space NL"
  by (simp add: is_space_def)

lemma strip_Nil: "strip_trailing_space [] = []"
  by (simp add: strip_trailing_space.simps)

lemma strip_copy:
  "\<not> is_hspace c \<Longrightarrow> strip_trailing_space (c # cs) = c # strip_trailing_space cs"
  by (simp add: strip_trailing_space.simps)

lemma strip_to_end:
  "is_hspace c \<Longrightarrow> dropWhile is_hspace cs = [] \<Longrightarrow> strip_trailing_space (c # cs) = []"
  by (simp add: strip_trailing_space.simps del: dropWhile_eq_Nil_conv)

lemma strip_to_NL:
  "is_hspace c \<Longrightarrow> dropWhile is_hspace cs = NL # ds \<Longrightarrow>
   strip_trailing_space (c # cs) = NL # strip_trailing_space ds"
  by (simp add: strip_trailing_space.simps)

lemma strip_keep:
  "is_hspace c \<Longrightarrow> dropWhile is_hspace cs = d # ds \<Longrightarrow> d \<noteq> NL \<Longrightarrow>
   strip_trailing_space (c # cs) = c # strip_trailing_space cs"
  by (simp add: strip_trailing_space.simps)

lemma rstrip_hspace_all: "\<forall>x\<in>set l. is_hspace x \<Longrightarrow> rstrip_hspace l = []"
  by (simp add: rstrip_hspace_def)

lemma rstrip_hspace_Cons:
  "\<exists>x\<in>set (c # l). \<not> is_hspace x \<Longrightarrow> rstrip_hspace (c # l) = c # rstrip_hspace l"
  by (auto simp: rstrip_hspace_def dropWhile_append)

lemma rstrip_hspace_last:
  "rstrip_hspace l = [] \<or> \<not> is_hspace (last (rstrip_hspace l))"
proof (cases "dropWhile is_hspace (rev l)")
  case Nil
  then show ?thesis by (simp add: rstrip_hspace_def)
next
  case (Cons a as)
  then have "\<not> is_hspace a" by (metis hd_dropWhile list.sel(1) list.distinct(1))
  then show ?thesis using Cons by (simp add: rstrip_hspace_def)
qed

lemma lines_of_no_NL: "NL \<notin> set l \<Longrightarrow> lines_of l = [l]"
  by (induction l) (auto split: list.splits)

lemma hd_lines_of: "hd (lines_of s) = takeWhile (\<lambda>x. x \<noteq> NL) s"
  by (induction s) (auto simp: lines_of_nonempty split: list.splits)

lemma lines_of_append_two: "lines_of (s @ [NL, NL]) = lines_of s @ [[], []]"
  by (induction s) (auto simp: lines_of_nonempty split: list.splits)

lemma lines_of_strip:
  "lines_of (strip_trailing_space s) = map rstrip_hspace (lines_of s)"
proof (induction s rule: strip_trailing_space.induct)
  case 1
  show ?case by (simp add: strip_Nil rstrip_hspace_def)
next
  case (2 c cs)
  show ?case
  proof (cases "is_hspace c")
    case False
    note ih = "2.IH"(3) [OF False]
    show ?thesis
    proof (cases "c = NL")
      case True
      then show ?thesis using ih False by (simp add: strip_copy rstrip_hspace_def)
    next
      case nl: False
      have "rstrip_hspace (c # hd (lines_of cs)) = c # rstrip_hspace (hd (lines_of cs))"
        using False by (intro rstrip_hspace_Cons) auto
      then show ?thesis
        using ih False nl lines_of_nonempty [of cs]
        by (simp add: strip_copy lines_of_Cons hd_map map_tl del: lines_of.simps)
    qed
  next
    case True
    then have cn: "c \<noteq> NL" by (rule is_hspace_not_NL)
    show ?thesis
    proof (cases "dropWhile is_hspace cs")
      case Nil
      then have all: "\<forall>x\<in>set (c # cs). is_hspace x"
        using True by (simp add: dropWhile_eq_Nil_conv)
      then have "NL \<notin> set (c # cs)" using is_hspace_not_NL by blast
      then have "lines_of (c # cs) = [c # cs]" by (rule lines_of_no_NL)
      then show ?thesis
        using True Nil all by (simp add: strip_to_end rstrip_hspace_all)
    next
      case (Cons d ds)
      have cs: "cs = takeWhile is_hspace cs @ d # ds"
        using Cons by (metis takeWhile_dropWhile_id)
      have dn: "\<not> is_hspace d"
        using Cons by (metis hd_dropWhile list.sel(1) list.distinct(1))
      show ?thesis
      proof (cases "d = NL")
        case dnl: True
        have all: "\<forall>x\<in>set (c # takeWhile is_hspace cs). is_hspace x"
          using True by (auto dest: set_takeWhileD)
        then have "NL \<notin> set (c # takeWhile is_hspace cs)"
          using is_hspace_not_NL by blast
        then have "lines_of ((c # takeWhile is_hspace cs) @ NL # ds)
                   = (c # takeWhile is_hspace cs) # lines_of ds"
          by (rule lines_of_append_NL)
        then have l: "lines_of (c # cs) = (c # takeWhile is_hspace cs) # lines_of ds"
          using cs dnl by (metis append_Cons)
        have "strip_trailing_space (c # cs) = NL # strip_trailing_space ds"
          using True Cons dnl by (simp add: strip_to_NL)
        then show ?thesis
          using "2.IH"(1) [OF True Cons dnl] l rstrip_hspace_all [OF all] by simp
      next
        case dnn: False
        have "d \<in> set (takeWhile (\<lambda>x. x \<noteq> NL) cs)"
        proof -
          have "\<And>x. x \<in> set (takeWhile is_hspace cs) \<Longrightarrow> x \<noteq> NL"
            using is_hspace_not_NL by (auto dest: set_takeWhileD)
          then have "takeWhile (\<lambda>x. x \<noteq> NL) (takeWhile is_hspace cs @ d # ds)
                     = takeWhile is_hspace cs @ d # takeWhile (\<lambda>x. x \<noteq> NL) ds"
            using dnn by (simp add: takeWhile_append2)
          then show ?thesis using cs by (metis in_set_conv_decomp)
        qed
        then have "\<exists>x\<in>set (c # hd (lines_of cs)). \<not> is_hspace x"
          using dn by (auto simp: hd_lines_of)
        then have "rstrip_hspace (c # hd (lines_of cs)) = c # rstrip_hspace (hd (lines_of cs))"
          by (rule rstrip_hspace_Cons)
        moreover have "strip_trailing_space (c # cs) = c # strip_trailing_space cs"
          using True Cons dnn by (simp add: strip_keep)
        ultimately show ?thesis
          using "2.IH"(2) [OF True Cons dnn] cn lines_of_nonempty [of cs]
          by (simp add: lines_of_Cons hd_map map_tl del: lines_of.simps)
      qed
    qed
  qed
qed

text \<open>
  What the substitution does before a character that is neither a space nor a tab does not
  depend on what follows that character.
\<close>

lemma strip_up_to:
  "\<not> is_hspace x \<Longrightarrow>
   \<exists>u. \<forall>t. strip_trailing_space (s @ x # t) = u @ x # strip_trailing_space t"
proof (induction s rule: length_induct)
  case (1 s)
  note nx = "1.prems"
  show ?case
  proof (cases s)
    case Nil
    have "\<forall>t. strip_trailing_space ([] @ x # t) = [] @ x # strip_trailing_space t"
      using nx by (simp add: strip_copy)
    then show ?thesis unfolding Nil by blast
  next
    case (Cons c cs)
    have ihcs: "\<exists>u. \<forall>t. strip_trailing_space (cs @ x # t) = u @ x # strip_trailing_space t"
      using "1.IH" nx Cons by simp
    then obtain u where u: "\<And>t. strip_trailing_space (cs @ x # t) = u @ x # strip_trailing_space t"
      by blast
    have copy: "\<And>t. strip_trailing_space (c # (cs @ x # t)) = c # strip_trailing_space (cs @ x # t)
                \<Longrightarrow> strip_trailing_space (s @ x # t) = (c # u) @ x # strip_trailing_space t"
      using u Cons by simp
    show ?thesis
    proof (cases "is_hspace c")
      case False
      then have "\<forall>t. strip_trailing_space (s @ x # t) = (c # u) @ x # strip_trailing_space t"
        using copy by (simp add: strip_copy)
      then show ?thesis by blast
    next
      case True
      show ?thesis
      proof (cases "dropWhile is_hspace cs")
        case Nil
        then have all: "\<And>y. y \<in> set cs \<Longrightarrow> is_hspace y"
          by (simp add: dropWhile_eq_Nil_conv)
        then have dw: "\<And>t. dropWhile is_hspace (cs @ x # t) = x # t"
          using nx by (simp add: dropWhile_append2)
        show ?thesis
        proof (cases "x = NL")
          case xn: True
          have "\<forall>t. strip_trailing_space (s @ x # t) = [] @ x # strip_trailing_space t"
            using True dw xn Cons by (simp add: strip_to_NL)
          then show ?thesis by blast
        next
          case False
          then have "\<forall>t. strip_trailing_space (s @ x # t)
                         = (c # u) @ x # strip_trailing_space t"
            using True dw copy by (simp add: strip_keep)
          then show ?thesis by blast
        qed
      next
        case (Cons d ds)
        then have ex: "\<exists>y\<in>set cs. \<not> is_hspace y"
          by (metis dropWhile_eq_Nil_conv list.distinct(1))
        have dw: "\<And>t. dropWhile is_hspace (cs @ x # t) = d # (ds @ x # t)"
          using ex Cons by (auto simp: dropWhile_append)
        show ?thesis
        proof (cases "d = NL")
          case dn: True
          have "length ds < length s"
            using Cons \<open>s = c # cs\<close> length_dropWhile_le [of is_hspace cs] by simp
          then obtain v where
            v: "\<And>t. strip_trailing_space (ds @ x # t) = v @ x # strip_trailing_space t"
            using "1.IH" nx by blast
          have "\<forall>t. strip_trailing_space (s @ x # t) = (NL # v) @ x # strip_trailing_space t"
            using True dw dn v \<open>s = c # cs\<close> by (simp add: strip_to_NL)
          then show ?thesis by blast
        next
          case False
          then have "\<forall>t. strip_trailing_space (s @ x # t)
                         = (c # u) @ x # strip_trailing_space t"
            using True dw copy by (simp add: strip_keep)
          then show ?thesis by blast
        qed
      qed
    qed
  qed
qed

lemma rstrip_last: "rstrip s = [] \<or> \<not> is_space (last (rstrip s))"
proof (cases "dropWhile is_space (rev s)")
  case Nil
  then show ?thesis by (simp add: rstrip_def)
next
  case (Cons a as)
  then have "\<not> is_space a" by (metis hd_dropWhile list.sel(1) list.distinct(1))
  then show ?thesis using Cons by (simp add: rstrip_def)
qed

lemma rstrip_decomp: "\<exists>ws. s = rstrip s @ ws \<and> (\<forall>c\<in>set ws. is_space c)"
proof -
  have "rev (takeWhile is_space (rev s) @ dropWhile is_space (rev s))
        = rev (dropWhile is_space (rev s)) @ rev (takeWhile is_space (rev s))"
    by (rule rev_append)
  then have "s = rstrip s @ rev (takeWhile is_space (rev s))"
    by (simp only: takeWhile_dropWhile_id rev_rev_ident rstrip_def)
  moreover have "\<forall>c\<in>set (rev (takeWhile is_space (rev s))). is_space c"
    by (auto dest: set_takeWhileD)
  ultimately show ?thesis by blast
qed

lemma normalize_output_ends:
  "\<exists>body. normalize_output out = body @ [NL, NL] \<and> (body = [] \<or> \<not> is_space (last body))"
proof (cases "rstrip out" rule: rev_cases)
  case Nil
  have "\<not> is_hspace NL" using is_hspace_not_NL by blast
  then have "strip_trailing_space [NL, NL] = [] @ [NL, NL]"
    by (simp add: strip_copy strip_Nil)
  then show ?thesis unfolding normalize_output_def Let_def Nil by auto
next
  case (snoc b x)
  then have nx: "\<not> is_space x" using rstrip_last [of out] by simp
  then have "\<not> is_hspace x" using is_hspace_is_space by blast
  from strip_up_to [OF this, of b] obtain u
    where "\<And>t. strip_trailing_space (b @ x # t) = u @ x # strip_trailing_space t" by blast
  then have "strip_trailing_space (b @ x # [NL, NL]) = u @ x # strip_trailing_space [NL, NL]"
    by blast
  moreover have "\<not> is_hspace NL" using is_hspace_not_NL by blast
  ultimately have "strip_trailing_space ((b @ [x]) @ [NL, NL]) = (u @ [x]) @ [NL, NL]"
    by (simp add: strip_copy strip_Nil)
  then show ?thesis
    unfolding normalize_output_def Let_def snoc using nx by fastforce
qed

section \<open>Claims about the splice\<close>

text \<open>
  C1, as stated: for every document with a begin marker and an end marker at or after it, the
  new content is the original up to and including the begin-marker line, then the help text,
  then the original from the end marker on. This fails when the begin marker is not directly
  followed by a line feed: here the marker line ends with a space before its line feed, and
  the line feed is lost.
\<close>

theorem splice_marker_line_counterexample:
  "splice_doc ''.. BEGIN HELP TEXT \<newline>old\<newline>.. END HELP TEXT\<newline>'' ''X\<newline>''
     = Inr ''.. BEGIN HELP TEXT X\<newline>.. END HELP TEXT\<newline>''
   \<and> splice_doc ''.. BEGIN HELP TEXT \<newline>old\<newline>.. END HELP TEXT\<newline>'' ''X\<newline>''
     \<noteq> Inr (''.. BEGIN HELP TEXT \<newline>'' @ ''X\<newline>'' @ ''.. END HELP TEXT\<newline>'')"
  by (simp add: splice_doc_def py_find_def help_begin_text_def help_end_text_def
      slice_to_def slice_from_def slice_bound_def)

text \<open>
  C1, amended: for every document \<open>PRE\<close>, begin marker, line feed, \<open>mid\<close>, end marker, \<open>POST\<close>,
  where \<open>PRE\<close> has no begin marker and \<open>mid\<close> no end marker (these are the first begin marker
  and the first end marker after it), the splice succeeds and the new content is exactly
  \<open>PRE\<close>, the begin marker and its line feed, the help text, the end marker and \<open>POST\<close>:
  \<open>PRE\<close>, both markers and \<open>POST\<close> are unchanged.
\<close>

theorem splice_preserves_outside:
  assumes "\<not> sublist help_begin_text pre" and "\<not> sublist help_end_text mid"
  shows "splice_doc (pre @ help_begin_text @ [NL] @ mid @ help_end_text @ post) X
         = Inr (pre @ help_begin_text @ [NL] @ X @ help_end_text @ post)"
proof -
  have "\<not> prefix help_end_text (NL # mid)" by (simp add: help_end_text_def)
  then have "\<not> sublist help_end_text (NL # mid)"
    using assms(2) by (simp add: sublist_Cons_right)
  from splice_found [OF begin_first [OF assms(1)] end_first [OF this], of post X]
  show ?thesis by (simp add: length_help_begin_text)
qed

theorem splice_preserves_outside_witness:
  "\<not> sublist help_begin_text ''title\<newline>''
   \<and> \<not> sublist help_end_text ''old\<newline>''
   \<and> splice_doc
        (''title\<newline>'' @ help_begin_text @ [NL] @ ''old\<newline>'' @ help_end_text @ ''\<newline>tail'')
        ''new\<newline>''
       = Inr (''title\<newline>'' @ help_begin_text @ [NL] @ ''new\<newline>'' @ help_end_text
              @ ''\<newline>tail'')"
proof -
  have b: "\<not> sublist help_begin_text ''title\<newline>''"
    by (simp add: help_begin_text_def sublist_code)
  have e: "\<not> sublist help_end_text ''old\<newline>''"
    by (simp add: help_end_text_def sublist_code)
  from b e splice_preserves_outside [OF b e, of "''\<newline>tail''" "''new\<newline>''"]
  show ?thesis by blast
qed

text \<open>
  C2, as stated: for every document with both markers in order and every help text, splicing
  the same help text into the result of the splice gives that result again. This fails when
  the help text itself contains an end marker: the second splice stops at the end marker
  that the first one brought in, and what follows it in the help text is kept once more.
\<close>

theorem splice_twice_counterexample:
  "splice_doc ''.. BEGIN HELP TEXT\<newline>old\<newline>.. END HELP TEXT\<newline>''
      ''a.. END HELP TEXT b\<newline>''
     = Inr ''.. BEGIN HELP TEXT\<newline>a.. END HELP TEXT b\<newline>.. END HELP TEXT\<newline>''
   \<and> splice_doc ''.. BEGIN HELP TEXT\<newline>a.. END HELP TEXT b\<newline>.. END HELP TEXT\<newline>''
      ''a.. END HELP TEXT b\<newline>''
     = Inr ''.. BEGIN HELP TEXT\<newline>a.. END HELP TEXT b\<newline>.. END HELP TEXT b\<newline>.. END HELP TEXT\<newline>''
   \<and> splice_doc ''.. BEGIN HELP TEXT\<newline>a.. END HELP TEXT b\<newline>.. END HELP TEXT\<newline>''
      ''a.. END HELP TEXT b\<newline>''
     \<noteq> splice_doc ''.. BEGIN HELP TEXT\<newline>old\<newline>.. END HELP TEXT\<newline>''
      ''a.. END HELP TEXT b\<newline>''"
  by (simp add: splice_doc_def py_find_def help_begin_text_def help_end_text_def
      slice_to_def slice_from_def slice_bound_def)

text \<open>
  C2, amended: when the markers are located as above and the help text brings no end marker
  with it (the character kept after the begin marker followed by the help text contains no
  end marker), splicing the same help text into the new content gives the new content again;
  so a second run of \<open>main\<close> on the same standard output leaves the file as the first run
  left it.
\<close>

theorem splice_twice_same:
  assumes b: "\<not> sublist help_begin_text pre"
    and e: "\<not> sublist help_end_text mid"
    and x: "\<not> sublist help_end_text (take 1 (mid @ help_end_text) @ X)"
    and d: "data = pre @ help_begin_text @ mid @ help_end_text @ post"
  shows "(\<exists>r. splice_doc data X = Inr r \<and> splice_doc r X = Inr r)
       \<and> (readme w = Some data \<and> X = help_text out \<longrightarrow>
            readme (snd (main (Completed rc (Some out))
                          (snd (main (Completed rc (Some out)) w))))
              = readme (snd (main (Completed rc (Some out)) w)))"
proof -
  obtain c rest where c: "mid @ help_end_text = c # rest"
    using help_end_text_nonempty by (cases "mid @ help_end_text") auto
  let ?r = "pre @ help_begin_text @ (c # X) @ help_end_text @ post"
  have tk: "\<And>a as. take (length pre + 19) (pre @ help_begin_text @ a # as)
              = pre @ help_begin_text @ [a]"
    by (simp add: length_help_begin_text)
  have dd: "data = pre @ help_begin_text @ c # rest @ post"
    using d c by (metis append_Cons append_assoc)
  have "splice_doc data X
        = Inr (take (length pre + 19) data @ X @ help_end_text @ post)"
    using splice_found [OF begin_first [OF b] end_first [OF e], of post X] d by simp
  then have 1: "splice_doc data X = Inr ?r"
    by (simp only: dd tk) simp
  have x': "\<not> sublist help_end_text (c # X)"
    using x c by simp
  have 2: "splice_doc ?r X = Inr ?r"
    using splice_found [OF begin_first [OF b] end_first [OF x'], of post X]
    by (simp only: append_Cons tk) simp
  from 1 2 show ?thesis by (auto simp: main_def)
qed

theorem splice_twice_same_witness:
  "(\<exists>r. splice_doc
          (''title\<newline>'' @ help_begin_text @ ''\<newline>old\<newline>'' @ help_end_text @ ''\<newline>tail'')
          (help_text ''usage: nitf-rename [-h]\<newline>'') = Inr r
        \<and> splice_doc r (help_text ''usage: nitf-rename [-h]\<newline>'') = Inr r)
   \<and> readme (snd (main (Completed 0 (Some ''usage: nitf-rename [-h]\<newline>''))
        (snd (main (Completed 0 (Some ''usage: nitf-rename [-h]\<newline>''))
           \<lparr>readme = Some (''title\<newline>'' @ help_begin_text @ ''\<newline>old\<newline>''
                              @ help_end_text @ ''\<newline>tail''),
            printed = []\<rparr>))))
     = readme (snd (main (Completed 0 (Some ''usage: nitf-rename [-h]\<newline>''))
           \<lparr>readme = Some (''title\<newline>'' @ help_begin_text @ ''\<newline>old\<newline>''
                              @ help_end_text @ ''\<newline>tail''),
            printed = []\<rparr>))"
proof -
  have b: "\<not> sublist help_begin_text ''title\<newline>''"
    by (simp add: help_begin_text_def sublist_code)
  have e: "\<not> sublist help_end_text ''\<newline>old\<newline>''"
    by (simp add: help_end_text_def sublist_code)
  have x: "\<not> sublist help_end_text
             (take 1 (''\<newline>old\<newline>'' @ help_end_text)
              @ help_text ''usage: nitf-rename [-h]\<newline>'')"
    by code_simp
  show ?thesis
    using splice_twice_same [OF b e x refl, of "''\<newline>tail''"
        "\<lparr>readme = Some (''title\<newline>'' @ help_begin_text @ ''\<newline>old\<newline>''
                              @ help_end_text @ ''\<newline>tail''), printed = []\<rparr>"
        "''usage: nitf-rename [-h]\<newline>''" 0]
    by simp
qed

text \<open>
  C3: when the document has no begin marker, and when it has one but no end marker after
  the first begin marker (\<open>pre\<close> has no begin marker, \<open>post\<close> no end marker), \<open>main\<close> prints the error that names the marker that was not
  found and returns with the file as it was.
\<close>

theorem missing_marker_reported:
  assumes "readme w = Some data"
  shows "(\<not> sublist help_begin_text data \<longrightarrow>
            main (Completed rc (Some out)) w
              = (Returned, w\<lparr>printed := printed w @
                   [''Error: '' @ [CHR 0x27] @ ''.. BEGIN HELP TEXT'' @ [CHR 0x27]
                    @ '' not found'']\<rparr>))
       \<and> (data = pre @ help_begin_text @ post
              \<and> \<not> sublist help_begin_text pre \<and> \<not> sublist help_end_text post \<longrightarrow>
            main (Completed rc (Some out)) w
              = (Returned, w\<lparr>printed := printed w @
                   [''Error: '' @ [CHR 0x27] @ ''.. END HELP TEXT'' @ [CHR 0x27]
                    @ '' not found'']\<rparr>))
       \<and> (\<not> sublist help_begin_text data
              \<or> (data = pre @ help_begin_text @ post
                  \<and> \<not> sublist help_begin_text pre \<and> \<not> sublist help_end_text post) \<longrightarrow>
            readme (snd (main (Completed rc (Some out)) w)) = Some data)"
  using assms
  by (auto simp: main_def splice_no_begin splice_no_end begin_first end_after_begin
        not_found_message_def help_begin_text_def [symmetric] help_end_text_def [symmetric])

theorem missing_marker_reported_witness:
  "main (Completed 0 (Some ''usage: nitf-rename''))
     \<lparr>readme = Some ''no markers here\<newline>'', printed = []\<rparr>
   = (Returned,
      \<lparr>readme = Some ''no markers here\<newline>'',
       printed = [''Error: '' @ [CHR 0x27] @ ''.. BEGIN HELP TEXT'' @ [CHR 0x27]
                  @ '' not found'']\<rparr>)
   \<and> main (Completed 0 (Some ''usage: nitf-rename''))
     \<lparr>readme = Some (''.. END HELP TEXT\<newline>'' @ help_begin_text @ ''\<newline>old\<newline>''),
      printed = []\<rparr>
   = (Returned,
      \<lparr>readme = Some (''.. END HELP TEXT\<newline>'' @ help_begin_text @ ''\<newline>old\<newline>''),
       printed = [''Error: '' @ [CHR 0x27] @ ''.. END HELP TEXT'' @ [CHR 0x27]
                  @ '' not found'']\<rparr>)"
proof -
  let ?w1 = "\<lparr>readme = Some ''no markers here\<newline>'', printed = []\<rparr>"
  let ?w2 = "\<lparr>readme = Some (''.. END HELP TEXT\<newline>'' @ help_begin_text @ ''\<newline>old\<newline>''),
              printed = []\<rparr>"
  have r1: "readme ?w1 = Some ''no markers here\<newline>''" by simp
  have n1: "\<not> sublist help_begin_text ''no markers here\<newline>''"
    by (simp add: help_begin_text_def sublist_code)
  have r2: "readme ?w2
            = Some (''.. END HELP TEXT\<newline>'' @ help_begin_text @ ''\<newline>old\<newline>'')"
    by simp
  have n2: "\<not> sublist help_begin_text ''.. END HELP TEXT\<newline>''"
    by (simp add: help_begin_text_def sublist_code)
  have n3: "\<not> sublist help_end_text ''\<newline>old\<newline>''"
    by (simp add: help_end_text_def sublist_code)
  from missing_marker_reported [OF r1, of 0 "''usage: nitf-rename''"] n1
  have a: "main (Completed 0 (Some ''usage: nitf-rename'')) ?w1
            = (Returned, ?w1\<lparr>printed := printed ?w1 @
                 [''Error: '' @ [CHR 0x27] @ ''.. BEGIN HELP TEXT'' @ [CHR 0x27]
                  @ '' not found'']\<rparr>)"
    by blast
  from missing_marker_reported
         [OF r2, of 0 "''usage: nitf-rename''" "''.. END HELP TEXT\<newline>''" "''\<newline>old\<newline>''"]
       n2 n3
  have c: "main (Completed 0 (Some ''usage: nitf-rename'')) ?w2
            = (Returned, ?w2\<lparr>printed := printed ?w2 @
                 [''Error: '' @ [CHR 0x27] @ ''.. END HELP TEXT'' @ [CHR 0x27]
                  @ '' not found'']\<rparr>)"
    by blast
  from a c show ?thesis by simp
qed

text \<open>
  C4, as stated: the kept prefix ends after the begin-marker line also when the marker is
  not directly followed by a line feed. This fails: with more text on the marker line, the
  kept prefix ends one character after the marker, and the rest of the marker line is
  dropped with the old help text.
\<close>

theorem insertion_point_counterexample:
  "splice_doc ''.. BEGIN HELP TEXT (auto)\<newline>old\<newline>.. END HELP TEXT\<newline>'' ''X\<newline>''
     = Inr (''.. BEGIN HELP TEXT '' @ ''X\<newline>'' @ ''.. END HELP TEXT\<newline>'')
   \<and> through_line ''.. BEGIN HELP TEXT (auto)\<newline>old\<newline>.. END HELP TEXT\<newline>''
        (length help_begin_text)
     = ''.. BEGIN HELP TEXT (auto)\<newline>''
   \<and> \<not> prefix ''.. BEGIN HELP TEXT (auto)\<newline>''
         (''.. BEGIN HELP TEXT '' @ ''X\<newline>'' @ ''.. END HELP TEXT\<newline>'')"
  by (simp add: splice_doc_def py_find_def help_begin_text_def help_end_text_def
      slice_to_def slice_from_def slice_bound_def through_line_def)

text \<open>
  C4, amended: when both markers are found, the insertion point is one character after the
  begin marker, whatever that character is: the kept prefix is the content up to the marker,
  the marker and that one character. It is the content up to and including the begin-marker
  line exactly when that character is a line feed.
\<close>

theorem insertion_point_one_past_marker:
  assumes "\<not> sublist help_begin_text pre"
    and "\<not> sublist help_end_text mid"
    and "data = pre @ help_begin_text @ mid @ help_end_text @ post"
    and "k = length pre + length help_begin_text"
  shows "splice_doc data X = Inr (take (k + 1) data @ X @ help_end_text @ post)
       \<and> (take (k + 1) data = through_line data k \<longleftrightarrow> data ! k = NL)"
proof -
  have "Suc k < length data"
    using assms(3,4) by (simp add: length_help_end_text)
  from through_line_Suc [OF this]
    splice_found [OF begin_first [OF assms(1)] end_first [OF assms(2)], of post X]
  show ?thesis using assms(3,4) by (simp add: length_help_begin_text)
qed

theorem insertion_point_one_past_marker_witness:
  "splice_doc (''a\<newline>'' @ help_begin_text @ '' (auto)\<newline>old\<newline>'' @ help_end_text @ ''\<newline>z'')
      ''X\<newline>''
     = Inr (take (20 + 1)
              (''a\<newline>'' @ help_begin_text @ '' (auto)\<newline>old\<newline>'' @ help_end_text @ ''\<newline>z'')
            @ ''X\<newline>'' @ help_end_text @ ''\<newline>z'')
   \<and> (take (20 + 1)
         (''a\<newline>'' @ help_begin_text @ '' (auto)\<newline>old\<newline>'' @ help_end_text @ ''\<newline>z'')
       = through_line
           (''a\<newline>'' @ help_begin_text @ '' (auto)\<newline>old\<newline>'' @ help_end_text @ ''\<newline>z'')
           20
      \<longleftrightarrow> (''a\<newline>'' @ help_begin_text @ '' (auto)\<newline>old\<newline>'' @ help_end_text @ ''\<newline>z'')
            ! 20 = NL)"
proof -
  have b: "\<not> sublist help_begin_text ''a\<newline>''"
    by (simp add: help_begin_text_def sublist_code)
  have e: "\<not> sublist help_end_text '' (auto)\<newline>old\<newline>''"
    by (simp add: help_end_text_def sublist_code)
  have k: "(20::nat) = length ''a\<newline>'' + length help_begin_text"
    by (simp add: help_begin_text_def)
  show ?thesis
    by (rule insertion_point_one_past_marker [OF b e refl k])
qed

section \<open>Claims about the help text\<close>

text \<open>
  C5: on the input \<^verbatim>\<open>usage: nitf-rename [options]\<close> the first rule of the transformer gives
  the line \<^verbatim>\<open>usage::\<close>, an empty line, and the line of seven spaces followed by
  \<^verbatim>\<open>nitf-rename [options]\<close>.
\<close>

theorem usage_line_becomes_literal_block:
  "patch_help_test ''usage: nitf-rename [options]''
     = ''usage::\<newline>\<newline>       nitf-rename [options]''
   \<and> str_replace (''usage: '' @ COMMAND_NAME)
        (''usage::\<newline>'' @ ''\<newline>'' @ ''       '' @ COMMAND_NAME)
        ''usage: nitf-rename [options]''
     = ''usage::'' @ [NL] @ [] @ [NL] @ replicate 7 (CHR '' '') @ ''nitf-rename [options]''"
  by (simp add: patch_help_test_def COMMAND_NAME_def str_replace.simps eval_nat_numeral)

text \<open>
  C10: the first rule of \<open>patch_help_test\<close> replaces every occurrence of
  \<^verbatim>\<open>usage: nitf-rename\<close>, wherever it stands: whatever the text \<open>p\<close> before an occurrence
  and the text \<open>r\<close> after it, the output of \<open>patch_help_test\<close> is its output for \<open>p\<close>, the
  three-line header, and its output for \<open>r\<close>; and so is the result of the first rule alone.
\<close>

theorem usage_prefix_replaced_everywhere:
  "patch_help_test (p @ ''usage: nitf-rename'' @ r)
     = patch_help_test p @ ''usage::\<newline>\<newline>       nitf-rename'' @ patch_help_test r
   \<and> str_replace (''usage: '' @ COMMAND_NAME)
        (''usage::\<newline>'' @ ''\<newline>'' @ ''       '' @ COMMAND_NAME)
        (p @ ''usage: nitf-rename'' @ r)
     = str_replace (''usage: '' @ COMMAND_NAME)
         (''usage::\<newline>'' @ ''\<newline>'' @ ''       '' @ COMMAND_NAME) p
       @ ''usage::\<newline>\<newline>       nitf-rename''
       @ str_replace (''usage: '' @ COMMAND_NAME)
           (''usage::\<newline>'' @ ''\<newline>'' @ ''       '' @ COMMAND_NAME) r"
proof -
  let ?T = "''{none,auto,git,hg,svn}''" and ?A = "''<none,auto,git,hg,svn>''"
  let ?U = "''usage: nitf-rename''" and ?H = "''usage::\<newline>\<newline>       nitf-rename''"
  have 1: "str_replace ?U ?H (p @ ?U @ r)
           = str_replace ?U ?H p @ ?H @ str_replace ?U ?H r"
    by (rule str_replace_occurrence) simp_all
  have 2: "\<And>a b. str_replace ?T ?A (a @ ?H @ b)
                  = str_replace ?T ?A a @ ?H @ str_replace ?T ?A b"
    by (rule str_replace_around) (simp_all add: sublist_code)
  have "patch_help_test (p @ ?U @ r)
        = str_replace ?T ?A (str_replace ?U ?H p @ ?H @ str_replace ?U ?H r)"
    using 1 by (simp add: patch_help_test_def COMMAND_NAME_def)
  also have "\<dots> = patch_help_test p @ ?H @ patch_help_test r"
    by (simp only: 2) (simp add: patch_help_test_def COMMAND_NAME_def)
  finally show ?thesis using 1 by (simp add: COMMAND_NAME_def)
qed

text \<open>
  C6: when the input contains \<^verbatim>\<open>{none,auto,git,hg,svn}\<close>, the output of the transformer
  contains \<^verbatim>\<open><none,auto,git,hg,svn>\<close> and no \<^verbatim>\<open>{none,auto,git,hg,svn}\<close>; when the input does
  not contain it, the output is the output of the first rule, and the second rule applied to
  any text without the token returns that text.
\<close>

theorem brace_token_becomes_angle:
  "(sublist ''{none,auto,git,hg,svn}'' s \<longrightarrow>
      sublist ''<none,auto,git,hg,svn>'' (patch_help_test s)
      \<and> \<not> sublist ''{none,auto,git,hg,svn}'' (patch_help_test s))
   \<and> (\<not> sublist ''{none,auto,git,hg,svn}'' s \<longrightarrow>
      patch_help_test s
        = str_replace (''usage: '' @ COMMAND_NAME)
            (''usage::\<newline>'' @ ''\<newline>'' @ ''       '' @ COMMAND_NAME) s)
   \<and> (\<not> sublist ''{none,auto,git,hg,svn}'' t \<longrightarrow>
      str_replace ''{none,auto,git,hg,svn}'' ''<none,auto,git,hg,svn>'' t = t)"
proof -
  let ?T = "''{none,auto,git,hg,svn}''" and ?A = "''<none,auto,git,hg,svn>''"
  let ?U = "''usage: nitf-rename''" and ?H = "''usage::\<newline>\<newline>       nitf-rename''"
  let ?s1 = "str_replace ?U ?H s"
  have p: "patch_help_test s = str_replace ?T ?A ?s1"
    by (simp add: patch_help_test_def COMMAND_NAME_def)
  have keep: "sublist ?T s \<Longrightarrow> sublist ?T ?s1"
    by (rule str_replace_keeps_sublist) (simp_all add: sublist_code)
  have make: "sublist ?T ?s1 \<Longrightarrow> sublist ?T s"
    by (rule str_replace_makes_no_sublist [of ?U ?T ?H]) (simp_all add: sublist_code)
  have res: "\<not> sublist ?T (str_replace ?T ?A ?s1)"
    by (rule str_replace_no_residual) (simp_all add: sublist_code)
  have put: "sublist ?T ?s1 \<Longrightarrow> sublist ?A (str_replace ?T ?A ?s1)"
    by (rule str_replace_puts_new) simp_all
  have noop: "\<And>u. \<not> sublist ?T u \<Longrightarrow> str_replace ?T ?A u = u"
    by (rule str_replace_absent) simp_all
  show ?thesis
    using p keep make res put noop [of ?s1] noop [of t]
    by (auto simp: COMMAND_NAME_def)
qed

theorem brace_token_becomes_angle_witness:
  "sublist ''{none,auto,git,hg,svn}'' ''usage: nitf-rename [--vcs {none,auto,git,hg,svn}]''
   \<and> sublist ''<none,auto,git,hg,svn>''
        (patch_help_test ''usage: nitf-rename [--vcs {none,auto,git,hg,svn}]'')
   \<and> \<not> sublist ''{none,auto,git,hg,svn}''
        (patch_help_test ''usage: nitf-rename [--vcs {none,auto,git,hg,svn}]'')
   \<and> \<not> sublist ''{none,auto,git,hg,svn}'' ''usage: nitf-rename [-h] {a,b}''
   \<and> patch_help_test ''usage: nitf-rename [-h] {a,b}''
       = str_replace (''usage: '' @ COMMAND_NAME)
           (''usage::\<newline>'' @ ''\<newline>'' @ ''       '' @ COMMAND_NAME)
           ''usage: nitf-rename [-h] {a,b}''
   \<and> str_replace ''{none,auto,git,hg,svn}'' ''<none,auto,git,hg,svn>''
         ''usage: nitf-rename [-h] {a,b}''
       = ''usage: nitf-rename [-h] {a,b}''"
proof -
  have a: "sublist ''{none,auto,git,hg,svn}''
             ''usage: nitf-rename [--vcs {none,auto,git,hg,svn}]''"
    by (simp add: sublist_code)
  have b: "\<not> sublist ''{none,auto,git,hg,svn}'' ''usage: nitf-rename [-h] {a,b}''"
    by (simp add: sublist_code)
  from a b
    brace_token_becomes_angle [of "''usage: nitf-rename [--vcs {none,auto,git,hg,svn}]''"
      "''usage: nitf-rename [-h] {a,b}''"]
    brace_token_becomes_angle [of "''usage: nitf-rename [-h] {a,b}''"
      "''usage: nitf-rename [-h] {a,b}''"]
  show ?thesis by blast
qed

text \<open>
  C8: for every captured output, the text given to the transformer has no line that ends
  with a space or a tab; it is a body that is empty or ends with a character that is not
  white space, followed by exactly two line feeds, the end of the last line and one empty
  line; its lines are the lines of the output without its trailing white space, each without
  its trailing spaces and tabs, and the two empty lines; and what \<open>rstrip\<close> removes from the
  output is white space only.
\<close>

theorem output_normalized:
  "(\<forall>l\<in>set (lines_of (normalize_output out)). l = [] \<or> \<not> is_hspace (last l))
   \<and> (\<exists>body. normalize_output out = body @ [NL, NL]
          \<and> (body = [] \<or> \<not> is_space (last body)))
   \<and> lines_of (normalize_output out)
       = map rstrip_hspace (lines_of (rstrip out)) @ [[], []]
   \<and> (\<exists>ws. out = rstrip out @ ws \<and> (\<forall>c\<in>set ws. is_space c))"
proof -
  have l: "lines_of (normalize_output out)
           = map rstrip_hspace (lines_of (rstrip out)) @ [[], []]"
    by (simp add: normalize_output_def lines_of_strip lines_of_append_two rstrip_hspace_def
        del: lines_of.simps)
  have "\<forall>l\<in>set (lines_of (normalize_output out)). l = [] \<or> \<not> is_hspace (last l)"
    unfolding l using rstrip_hspace_last by auto
  then show ?thesis
    using l normalize_output_ends [of out] rstrip_decomp [of out] by blast
qed

theorem output_normalized_witness:
  "lines_of (normalize_output ''usage: x  \<newline> \<newline>  -h \<newline>\<newline>\<newline>'')
     = [''usage: x'', [], ''  -h'', [], []]
   \<and> \<not> is_hspace (last ''usage: x'') \<and> \<not> is_hspace (last ''  -h'')
   \<and> normalize_output ''usage: x  \<newline> \<newline>  -h \<newline>\<newline>\<newline>''
       = ''usage: x\<newline>\<newline>  -h'' @ [NL, NL]"
proof -
  let ?out = "''usage: x  \<newline> \<newline>  -h \<newline>\<newline>\<newline>''"
  have "map rstrip_hspace (lines_of (rstrip ?out)) @ [[], []]
        = [''usage: x'', [], ''  -h'', [], []]"
    by code_simp
  with output_normalized [of ?out]
  have l: "lines_of (normalize_output ?out) = [''usage: x'', [], ''  -h'', [], []]"
    and a: "\<forall>l\<in>set (lines_of (normalize_output ?out)). l = [] \<or> \<not> is_hspace (last l)"
    by simp_all
  from a have "\<not> is_hspace (last ''usage: x'')" and "\<not> is_hspace (last ''  -h'')"
    unfolding l by simp_all
  moreover have "normalize_output ?out = ''usage: x\<newline>\<newline>  -h'' @ [NL, NL]"
    by code_simp
  ultimately show ?thesis using l by simp
qed

text \<open>
  C7, as stated: the first line of the text handed to the splice is the heading. This fails
  for every output: the text begins with a line feed, so its first line is empty and the
  heading is its second line.
\<close>

theorem heading_first_line_counterexample:
  "hd (lines_of (help_text ''usage: nitf-rename [-h]\<newline>'')) = []
   \<and> hd (lines_of (help_text ''usage: nitf-rename [-h]\<newline>''))
       \<noteq> ''Output of ``nitf-rename --help``''"
  by code_simp

text \<open>
  C7, amended: for every output, the text handed to the splice is one empty line, the heading
  line \<^verbatim>\<open>Output of ``nitf-rename --help``\<close>, one empty line, and then the transformed help
  text.
\<close>

theorem heading_second_line:
  "help_text out
     = [NL] @ ''Output of ``nitf-rename --help``'' @ [NL] @ [NL]
       @ patch_help_test (normalize_output out)
   \<and> lines_of (help_text out)
     = [] # ''Output of ``nitf-rename --help``'' # []
       # lines_of (patch_help_test (normalize_output out))"
proof -
  have 1: "help_text out
     = [NL] @ ''Output of ``nitf-rename --help``'' @ [NL] @ [NL]
       @ patch_help_test (normalize_output out)"
    by (simp add: help_text_def COMMAND_NAME_def)
  have "lines_of (''Output of ``nitf-rename --help``''
                  @ NL # NL # patch_help_test (normalize_output out))
        = ''Output of ``nitf-rename --help``''
          # lines_of (NL # patch_help_test (normalize_output out))"
    by (rule lines_of_append_NL) simp
  then show ?thesis unfolding 1 by simp
qed

section \<open>Claims about the run of the command\<close>

text \<open>
  C9, as stated: a run of the command that ends with a non-success exit status makes \<open>main\<close>
  fail before any write. This fails: \<open>main\<close> does not look at the exit status. Here the command
  ends with status 2 and has written nothing; \<open>main\<close> returns normally and has replaced the
  help text of the file by the bare heading.
\<close>

theorem exit_status_counterexample:
  "main (Completed 2 (Some []))
     \<lparr>readme = Some ''.. BEGIN HELP TEXT\<newline>old\<newline>.. END HELP TEXT\<newline>'', printed = []\<rparr>
   = (Returned,
      \<lparr>readme = Some (''.. BEGIN HELP TEXT\<newline>''
                       @ ''\<newline>Output of ``nitf-rename --help``\<newline>\<newline>\<newline>\<newline>''
                       @ ''.. END HELP TEXT\<newline>''),
       printed = []\<rparr>)"
  by code_simp

text \<open>
  C9, amended: when the command cannot be started, \<open>main\<close> raises before it reads or writes
  the file, and the file is as it was. The exit status of a command that ran is not looked
  at: \<open>main\<close> does with the output of a failed run what it does with the same output of a
  successful run.
\<close>

theorem not_started_raises_status_ignored:
  "main Not_Started w = (Raised OSError, w)
   \<and> main (Completed rc out) w = main (Completed 0 out) w"
  by (simp add: main_def)

end
